theory Spec2Isabelle
  imports Main "HOL-Library.AList" "HOL-Library.Multiset"
begin

section \<open>NumberArrayCompressor: a shallow embedding\<close>

text \<open>
  The class \<open>NumberArrayCompressor\<close> of \<open>src/NumberArrayCompressor.js\<close> serialises an
  array of integers into a printable string with one of three strategies and reads it
  back. JavaScript numbers are modelled as mathematical integers (\<open>int\<close>): on integers
  below \<open>2^53\<close> the double arithmetic of \<open>+\<close>, \<open>*\<close>, \<open>%\<close> and
  \<open>Math.floor (a / b)\<close> that the codec uses is exact, and the model does not describe
  what happens beyond. Strings are \<open>string\<close>, arrays are lists, \<open>null\<close> is \<open>None\<close>.
  The one array that the code mutates, the argument of \<open>encodeRunLength\<close>, is passed
  through explicitly: the function returns the array's new contents next to its result.
  The one exception the code throws is the \<open>Inl\<close> side of the result of
  \<open>deserialize\<close>.
\<close>

subsection \<open>String primitives of the host language\<close>

definition indexOf :: "string \<Rightarrow> char \<Rightarrow> int" where
  \<comment> \<open>\<open>s.indexOf(c)\<close> for a one-character \<open>c\<close>: the first position, or the sentinel -1.\<close>
  "indexOf s c = (if c \<in> set s then int (length (takeWhile (\<lambda>x. x \<noteq> c) s)) else - 1)"

definition slice :: "nat \<Rightarrow> nat \<Rightarrow> string \<Rightarrow> string" where
  \<comment> \<open>\<open>s.slice(i, j)\<close> for \<open>0 \<le> i\<close>; both ends are clamped to the length.\<close>
  "slice i j s = take (j - i) (drop i s)"

definition padStart :: "nat \<Rightarrow> char \<Rightarrow> string \<Rightarrow> string" where
  "padStart n c s = replicate (n - length s) c @ s"

definition padEnd :: "nat \<Rightarrow> char \<Rightarrow> string \<Rightarrow> string" where
  "padEnd n c s = s @ replicate (n - length s) c"

fun split_on :: "char \<Rightarrow> string \<Rightarrow> string list" where
  \<comment> \<open>\<open>s.split(sep)\<close>: the empty string splits into one empty field.\<close>
  "split_on sep [] = [[]]"
| "split_on sep (c # cs) =
     (if c = sep then [] # split_on sep cs
      else (case split_on sep cs of
              [] \<Rightarrow> [[c]]
            | p # ps \<Rightarrow> (c # p) # ps))"

fun toString2 :: "nat \<Rightarrow> string" where
  \<comment> \<open>\<open>n.toString(2)\<close> of a non-negative integer: binary digits, no leading zero.\<close>
  "toString2 n =
     (if n < 2 then [if n = 0 then CHR ''0'' else CHR ''1'']
      else toString2 (n div 2) @ [if n mod 2 = 0 then CHR ''0'' else CHR ''1''])"

definition parseInt2 :: "string \<Rightarrow> nat option" where
  \<comment> \<open>\<open>parseInt(s, 2)\<close> on a string without sign or leading blanks: the value of the
      longest prefix of binary digits, and \<open>NaN\<close> (here \<open>None\<close>) when that prefix is empty.\<close>
  "parseInt2 s =
     (let ds = takeWhile (\<lambda>c. c = CHR ''0'' \<or> c = CHR ''1'') s
      in if ds = [] then None
         else Some (foldl (\<lambda>acc c. 2 * acc + (if c = CHR ''1'' then 1 else 0)) 0 ds))"

subsection \<open>The alphabet (constructor)\<close>

definition alphabet :: string where
  \<comment> \<open>The characters with codes 33 .. 125, without the comma and the semicolon.\<close>
  "alphabet =
     filter (\<lambda>char. \<not> (char \<in> set '',;''))
       (map (\<lambda>i. char_of (i + 33)) [0..<126 - 33])"

definition base :: int where
  "base = int (length alphabet)"

definition alphabet_at :: "nat option \<Rightarrow> string" where
  \<comment> \<open>\<open>this.alphabet[value]\<close> as it ends up in a joined string: one character, or
      nothing when the index is \<open>NaN\<close> or out of range (\<open>undefined\<close> joins as empty).\<close>
  "alphabet_at value =
     (case value of
        None \<Rightarrow> []
      | Some v \<Rightarrow> if v < length alphabet then [alphabet ! v] else [])"

subsection \<open>Scalar codec\<close>

function encodeNumber_loop :: "int \<Rightarrow> string \<Rightarrow> string" where
  \<comment> \<open>The \<open>while\<close> loop of \<open>encodeNumber\<close>; \<open>num % this.base\<close> is an index of the
      alphabet, since \<open>this.base\<close> is its length.\<close>
  "encodeNumber_loop num result =
     (if num > 0
      then encodeNumber_loop (num div base) (alphabet ! nat (num mod base) # result)
      else result)"
  by pat_completeness auto
termination
proof (relation "measure (\<lambda>(num, result). nat num)")
  show "wf (measure (\<lambda>(num, result). nat num))"
    by simp
next
  fix num :: int and result :: string
  assume pos: "0 < num"
  have "base = 91"
    by code_simp
  then have "num div base < num"
    using pos by (simp add: int_div_less_self)
  then show "((num div base, alphabet ! nat (num mod base) # result), num, result)
      \<in> measure (\<lambda>(num, result). nat num)"
    using pos by simp
qed

definition encodeNumber :: "int \<Rightarrow> string" where
  "encodeNumber num = (if num = 0 then [alphabet ! 0] else encodeNumber_loop num [])"

definition decodeNumber :: "string \<Rightarrow> int" where
  "decodeNumber str = foldl (\<lambda>result char. result * base + indexOf alphabet char) 0 str"

subsection \<open>Run-length strategy\<close>

definition run_step :: "int list \<Rightarrow> (int \<times> int) list \<times> int \<times> int \<Rightarrow> nat
    \<Rightarrow> (int \<times> int) list \<times> int \<times> int" where
  \<comment> \<open>One turn of the loop over \<open>i\<close>; the state is \<open>(runs, start, length)\<close>.\<close>
  "run_step sorted_ns st i =
     (case st of (runs, start, len) \<Rightarrow>
        if sorted_ns ! i = sorted_ns ! (i - 1) + 1 then (runs, start, len + 1)
        else (runs @ [(start, len)], sorted_ns ! i, 1))"

definition find_runs :: "int list \<Rightarrow> (int \<times> int) list" where
  \<comment> \<open>Only called on a non-empty array, so \<open>sorted_ns ! 0\<close> is in range.\<close>
  "find_runs sorted_ns =
     (case foldl (run_step sorted_ns) ([], sorted_ns ! 0, 1) [1..<length sorted_ns] of
        (runs, start, len) \<Rightarrow> runs @ [(start, len)])"

definition encodeRunLength :: "int list \<Rightarrow> string \<times> int list" where
  \<comment> \<open>Returns the encoding and the contents of the argument array after the call:
      \<open>numbers.sort\<close> sorts the caller's array in place.\<close>
  "encodeRunLength numbers =
     (if length numbers = 0 then ('''', numbers)
      else
        let sorted_ns = sort numbers;
            runs = find_runs sorted_ns;
            encoded = foldl (\<lambda>encoded (start, len).
                         encoded @ encodeNumber start @ '','' @ encodeNumber len @ '';'')
                       ''R'' runs
        in (encoded, sorted_ns))"

definition decodeRunLength :: "string \<Rightarrow> int list" where
  "decodeRunLength data =
     (let parts = filter (\<lambda>p. length p > 0) (split_on CHR '';'' data)
      in foldl (\<lambda>numbers part.
           let runData = split_on CHR '','' part
           in if length runData \<ge> 2
              then
                let start = decodeNumber (runData ! 0);
                    len = decodeNumber (runData ! 1)
                in numbers @ map (\<lambda>j. start + int j) [0..<nat len]
              else numbers) [] parts)"

subsection \<open>Bit-packed frequency strategy\<close>

definition freq_incr :: "(int \<times> int) list \<Rightarrow> int \<Rightarrow> (int \<times> int) list" where
  \<comment> \<open>\<open>freq[num] = (freq[num] || 0) + 1\<close> on the object used as a dictionary.\<close>
  "freq_incr freq num =
     AList.update num ((case map_of freq num of None \<Rightarrow> 0 | Some c \<Rightarrow> c) + 1) freq"

definition build_freq :: "int list \<Rightarrow> (int \<times> int) list" where
  "build_freq numbers =
     foldl (\<lambda>freq num. if num \<ge> 1 \<and> num \<le> 300 then freq_incr freq num else freq)
       [] numbers"

definition freq_entries :: "int list \<Rightarrow> (int \<times> int) list" where
  \<comment> \<open>\<open>Object.entries(freq)\<close> with the keys parsed back to numbers, sorted by key.\<close>
  "freq_entries numbers = sort_key fst (build_freq numbers)"

function pack_loop :: "string \<Rightarrow> nat \<Rightarrow> string list" where
  \<comment> \<open>The loop \<open>for (i = 0; i < bitString.length; i += 6)\<close>, from position \<open>i\<close> on.\<close>
  "pack_loop bitString i =
     (if i < length bitString
      then
        (let chunk = padEnd 6 CHR ''0'' (slice i (i + 6) bitString);
             value = parseInt2 chunk
         in alphabet_at value # pack_loop bitString (i + 6))
      else [])"
  by pat_completeness auto
termination
  by (relation "measure (\<lambda>(bitString, i). length bitString - i)") auto

definition entry_bits :: "int \<times> int \<Rightarrow> string" where
  \<comment> \<open>\<open>numBits + countBits\<close>; \<open>num \<ge> 1\<close> and \<open>count \<ge> 1\<close> for every entry of the table.\<close>
  "entry_bits e =
     (case e of (num, cnt) \<Rightarrow>
        padStart 9 CHR ''0'' (toString2 (nat (num - 1)))
        @ padStart 8 CHR ''0'' (toString2 (nat (min cnt 255))))"

definition encodeBitPacking :: "int list \<Rightarrow> string" where
  "encodeBitPacking numbers =
     (if length numbers = 0 then ''B''
      else
        let entries = freq_entries numbers;
            bitString = foldl (\<lambda>bitString e. bitString @ entry_bits e) [] entries;
            chunks = pack_loop bitString 0
        in ''B'' @ encodeNumber (int (length entries)) @ '','' @ concat chunks)"

definition unpack_char :: "string \<Rightarrow> char \<Rightarrow> string" where
  "unpack_char bitString char =
     (let value = indexOf alphabet char
      in if value \<noteq> - 1 then bitString @ padStart 6 CHR ''0'' (toString2 (nat value))
         else bitString)"

definition read_entry :: "string \<Rightarrow> int list \<Rightarrow> nat \<Rightarrow> int list" where
  \<comment> \<open>One turn of the loop over the records; \<open>NaN\<close> fails every comparison.\<close>
  "read_entry bitString numbers i =
     (let start = i * 17; numEnd = start + 9; countEnd = numEnd + 8
      in if countEnd \<le> length bitString
         then
           (case (parseInt2 (slice start numEnd bitString),
                  parseInt2 (slice numEnd countEnd bitString)) of
              (Some n, Some cnt) \<Rightarrow>
                 let num = int n + 1
                 in if num \<ge> 1 \<and> num \<le> 300 \<and> cnt > 0
                    then numbers @ replicate cnt num
                    else numbers
            | _ \<Rightarrow> numbers)
         else numbers)"

definition decodeBitPacking :: "string \<Rightarrow> int list" where
  "decodeBitPacking data =
     (if data = [] then []
      else
        let commaPos = indexOf data CHR '',''
        in if commaPos = - 1 then []
           else
             let countStr = take (nat commaPos) data;
                 packedData = drop (nat commaPos + 1) data;
                 entryCount = decodeNumber countStr
             in if entryCount = 0 then []
                else
                  let bitString = foldl unpack_char [] packedData;
                      numbers = foldl (read_entry bitString) [] [0..<nat entryCount]
                  in sort numbers)"

subsection \<open>Direct strategy\<close>

definition encodeDirect :: "int list \<Rightarrow> string" where
  \<comment> \<open>Sorts a copy (\<open>[...numbers]\<close>): the argument is left as it is.\<close>
  "encodeDirect numbers =
     foldl (\<lambda>encoded num. encoded @ encodeNumber num @ '','') ''D'' (sort numbers)"

definition decodeDirect :: "string \<Rightarrow> int list" where
  "decodeDirect data =
     (let parts = filter (\<lambda>p. length p > 0) (split_on CHR '','' data)
      in foldl (\<lambda>numbers part.
           let num = decodeNumber part
           in if num \<ge> 1 \<and> num \<le> 300 then numbers @ [num] else numbers) [] parts)"

subsection \<open>Selector\<close>

datatype error = InvalidEncodingMethod

definition serialize :: "int list option \<Rightarrow> string \<times> int list option" where
  \<comment> \<open>\<open>None\<close> is \<open>null\<close>/\<open>undefined\<close>. The second component is the caller's array after
      the call. \<open>encodeRunLength\<close> runs first, so the other two encoders see the array
      it has sorted.\<close>
  "serialize numbers =
     (case numbers of
        None \<Rightarrow> (''E'', None)
      | Some ns \<Rightarrow>
          if length ns = 0 then (''E'', Some ns)
          else
            (case encodeRunLength ns of (runLength, ns') \<Rightarrow>
               let bitPacking = encodeBitPacking ns';
                   direct = encodeDirect ns';
                   candidates = [direct, runLength, bitPacking]
               in (foldl (\<lambda>shortest current.
                            if length current < length shortest then current else shortest)
                     (candidates ! 0) candidates,
                   Some ns')))"

definition deserialize :: "string option \<Rightarrow> error + int list" where
  "deserialize encoded =
     (case encoded of
        None \<Rightarrow> Inr []
      | Some [] \<Rightarrow> Inr []
      | Some (method # data) \<Rightarrow>
          if method # data = ''E'' then Inr []
          else if method = CHR ''R'' then Inr (decodeRunLength data)
          else if method = CHR ''B'' then Inr (decodeBitPacking data)
          else if method = CHR ''D'' then Inr (decodeDirect data)
          else Inl InvalidEncodingMethod)"

section \<open>Auxiliary notions used in the proofs\<close>

text \<open>
  The definitions of this section are not part of the program. They name the pieces of
  the encoders and decoders above (the body of a loop, the text of one record, the values
  one record stands for), so that the lemmas about them can be stated, and
  \<open>first_shortest\<close> states the selection rule of the specification.
\<close>

definition run_record :: "int \<times> int \<Rightarrow> string" where
  \<comment> \<open>The text that \<open>encodeRunLength\<close> appends for one run.\<close>
  "run_record r = (case r of (start, len) \<Rightarrow> encodeNumber start @ '','' @ encodeNumber len @ '';'')"

definition run_part :: "int \<times> int \<Rightarrow> string" where
  \<comment> \<open>The same text without its terminator: one field of the split on \<open>;\<close>.\<close>
  "run_part r = (case r of (start, len) \<Rightarrow> encodeNumber start @ '','' @ encodeNumber len)"

definition run_values :: "int \<times> int \<Rightarrow> int list" where
  \<comment> \<open>The values a run stands for: \<open>len\<close> consecutive integers from \<open>start\<close>.\<close>
  "run_values r = (case r of (start, len) \<Rightarrow> map (\<lambda>j. start + int j) [0..<nat len])"

definition part_values :: "string \<Rightarrow> int list" where
  \<comment> \<open>What one turn of the loop of \<open>decodeRunLength\<close> appends.\<close>
  "part_values part =
     (let runData = split_on CHR '','' part
      in if length runData \<ge> 2
         then map (\<lambda>j. decodeNumber (runData ! 0) + int j) [0..<nat (decodeNumber (runData ! 1))]
         else [])"

definition runs_state :: "int list \<Rightarrow> nat \<Rightarrow> (int \<times> int) list \<times> int \<times> int" where
  \<comment> \<open>The state \<open>(runs, start, length)\<close> of the run detection after the turn \<open>i = k\<close>.\<close>
  "runs_state xs k = foldl (run_step xs) ([], xs ! 0, 1) [1..<Suc k]"

definition direct_value :: "string \<Rightarrow> int list" where
  \<comment> \<open>What one turn of the loop of \<open>decodeDirect\<close> appends.\<close>
  "direct_value part =
     (let num = decodeNumber part in if num \<ge> 1 \<and> num \<le> 300 then [num] else [])"

definition is_bits :: "string \<Rightarrow> bool" where
  "is_bits s = (\<forall>c \<in> set s. c = CHR ''0'' \<or> c = CHR ''1'')"

definition bits_val :: "string \<Rightarrow> nat" where
  \<comment> \<open>The number a string of binary digits denotes, most significant digit first.\<close>
  "bits_val s = foldl (\<lambda>acc c. 2 * acc + (if c = CHR ''1'' then 1 else 0)) 0 s"

definition in_range :: "int \<Rightarrow> bool" where
  "in_range v = (1 \<le> v \<and> v \<le> 300)"

definition entry_ok :: "int \<times> int \<Rightarrow> bool" where
  \<comment> \<open>What holds of every entry of the frequency table: a value in range, seen at least once.\<close>
  "entry_ok e = (1 \<le> fst e \<and> fst e \<le> 300 \<and> 1 \<le> snd e)"

definition entry_values :: "int \<times> int \<Rightarrow> int list" where
  \<comment> \<open>The values one 17-bit record stands for: the count field holds \<open>min count 255\<close>.\<close>
  "entry_values e = replicate (nat (min (snd e) 255)) (fst e)"

definition freq_count :: "(int \<times> int) list \<Rightarrow> int \<Rightarrow> int" where
  \<comment> \<open>\<open>freq[v] || 0\<close>.\<close>
  "freq_count freq v = (case map_of freq v of None \<Rightarrow> 0 | Some c \<Rightarrow> c)"

definition freq_step :: "(int \<times> int) list \<Rightarrow> int \<Rightarrow> (int \<times> int) list" where
  \<comment> \<open>One turn of the loop that builds the frequency table.\<close>
  "freq_step freq num = (if num \<ge> 1 \<and> num \<le> 300 then freq_incr freq num else freq)"

definition pick_shorter :: "string \<Rightarrow> string \<Rightarrow> string" where
  \<comment> \<open>The function that \<open>serialize\<close> passes to \<open>reduce\<close>.\<close>
  "pick_shorter shortest current = (if length current < length shortest then current else shortest)"

definition first_shortest :: "string list \<Rightarrow> string" where
  \<comment> \<open>The selection rule in the words of the specification: the candidate of minimum
      character length, and on a tie the one that comes first in the order of evaluation.\<close>
  "first_shortest candidates =
     hd (filter (\<lambda>c. \<forall>d \<in> set candidates. length c \<le> length d) candidates)"

section \<open>Facts about the alphabet and the scalar codec\<close>

declare encodeNumber_loop.simps [simp del]

lemma length_alphabet: "length alphabet = 91"
  by code_simp

lemma base_eq: "base = 91"
  by (simp add: base_def length_alphabet)

lemma distinct_alphabet: "distinct alphabet"
  by code_simp

lemma comma_notin_alphabet: "CHR '','' \<notin> set alphabet"
  by code_simp

lemma semicolon_notin_alphabet: "CHR '';'' \<notin> set alphabet"
  by code_simp

lemma indexOf_nth: "distinct s \<Longrightarrow> i < length s \<Longrightarrow> indexOf s (s ! i) = int i"
proof -
  assume d: "distinct s" and i: "i < length s"
  have "takeWhile (\<lambda>x. x \<noteq> s ! i) s = take i s"
    using d i by (simp add: takeWhile_eq_take_P_nth nth_eq_iff_index_eq)
  then show ?thesis
    using i by (simp add: indexOf_def)
qed

lemma indexOf_notin: "c \<notin> set s \<Longrightarrow> indexOf s c = - 1"
  by (simp add: indexOf_def)

lemma encodeNumber_loop_pos:
  "0 < num \<Longrightarrow> encodeNumber_loop num acc
     = encodeNumber_loop (num div base) (alphabet ! nat (num mod base) # acc)"
  by (subst encodeNumber_loop.simps) simp

lemma encodeNumber_loop_nonpos: "num \<le> 0 \<Longrightarrow> encodeNumber_loop num acc = acc"
  by (subst encodeNumber_loop.simps) simp

lemma encodeNumber_loop_acc: "encodeNumber_loop num acc = encodeNumber_loop num [] @ acc"
proof (induction "nat num" arbitrary: num acc rule: less_induct)
  case less
  show ?case
  proof (cases "0 < num")
    case True
    then have lt: "nat (num div base) < nat num"
      by (simp add: base_eq int_div_less_self)
    let ?c = "alphabet ! nat (num mod base)"
    have "encodeNumber_loop num acc = encodeNumber_loop (num div base) [] @ (?c # acc)"
      using less [OF lt, of "?c # acc"] True by (simp add: encodeNumber_loop_pos)
    moreover have "encodeNumber_loop num [] = encodeNumber_loop (num div base) [] @ [?c]"
      using less [OF lt, of "[?c]"] True by (simp add: encodeNumber_loop_pos)
    ultimately show ?thesis by simp
  next
    case False
    then show ?thesis by (simp add: encodeNumber_loop_nonpos)
  qed
qed

lemma encodeNumber_loop_snoc:
  "0 < num \<Longrightarrow> encodeNumber_loop num []
     = encodeNumber_loop (num div base) [] @ [alphabet ! nat (num mod base)]"
  using encodeNumber_loop_acc [of "num div base" "[alphabet ! nat (num mod base)]"]
  by (simp add: encodeNumber_loop_pos)

lemma decodeNumber_Nil: "decodeNumber [] = 0"
  by (simp add: decodeNumber_def)

lemma decodeNumber_snoc:
  "decodeNumber (s @ [c]) = decodeNumber s * base + indexOf alphabet c"
  by (simp add: decodeNumber_def)

lemma alphabet_digit:
  assumes "0 < num"
  shows "indexOf alphabet (alphabet ! nat (num mod base)) = num mod base"
proof -
  have "0 \<le> num mod base" "num mod base < 91"
    by (simp_all add: base_eq)
  then have "nat (num mod base) < length alphabet"
    by (simp add: length_alphabet)
  then show ?thesis
    using indexOf_nth [OF distinct_alphabet] \<open>0 \<le> num mod base\<close> by simp
qed

lemma decode_encodeNumber_loop: "0 \<le> num \<Longrightarrow> decodeNumber (encodeNumber_loop num []) = num"
proof (induction "nat num" arbitrary: num rule: less_induct)
  case less
  show ?case
  proof (cases "0 < num")
    case True
    then have lt: "nat (num div base) < nat num"
      by (simp add: base_eq int_div_less_self)
    have nn: "0 \<le> num div base"
      using True by (simp add: base_eq pos_imp_zdiv_nonneg_iff)
    have "decodeNumber (encodeNumber_loop num [])
        = decodeNumber (encodeNumber_loop (num div base) []) * base + num mod base"
      using True by (simp add: encodeNumber_loop_snoc decodeNumber_snoc alphabet_digit)
    also have "\<dots> = num div base * base + num mod base"
      using less(1) [OF lt nn] by simp
    finally show ?thesis by simp
  next
    case False
    with less(2) have "num = 0" by simp
    then show ?thesis by (simp add: encodeNumber_loop_nonpos decodeNumber_Nil)
  qed
qed

lemma decodeNumber_zero_symbol: "decodeNumber [alphabet ! 0] = 0"
  using indexOf_nth [OF distinct_alphabet, of 0]
  by (simp add: decodeNumber_def length_alphabet)

lemma decode_encodeNumber: "0 \<le> num \<Longrightarrow> decodeNumber (encodeNumber num) = num"
  by (simp add: encodeNumber_def decode_encodeNumber_loop decodeNumber_zero_symbol)

lemma set_encodeNumber_loop: "set (encodeNumber_loop num []) \<subseteq> set alphabet"
proof (induction "nat num" arbitrary: num rule: less_induct)
  case less
  show ?case
  proof (cases "0 < num")
    case True
    then have lt: "nat (num div base) < nat num"
      by (simp add: base_eq int_div_less_self)
    have "0 \<le> num mod base" "num mod base < 91"
      by (simp_all add: base_eq)
    then have "nat (num mod base) < length alphabet"
      by (simp add: length_alphabet)
    then have "alphabet ! nat (num mod base) \<in> set alphabet"
      by simp
    then show ?thesis
      using less [OF lt] True by (simp add: encodeNumber_loop_snoc)
  next
    case False
    then show ?thesis by (simp add: encodeNumber_loop_nonpos)
  qed
qed

lemma set_encodeNumber: "set (encodeNumber num) \<subseteq> set alphabet"
proof (cases "num = 0")
  case True
  have "alphabet ! 0 \<in> set alphabet"
    by (simp add: length_alphabet)
  with True show ?thesis by (simp add: encodeNumber_def)
next
  case False
  then show ?thesis by (simp add: encodeNumber_def set_encodeNumber_loop)
qed

lemma encodeNumber_nonempty: "0 \<le> num \<Longrightarrow> encodeNumber num \<noteq> []"
proof (cases "num = 0")
  case True
  then show ?thesis by (simp add: encodeNumber_def)
next
  case False
  assume "0 \<le> num"
  with False have "0 < num" by simp
  then show ?thesis
    by (simp add: encodeNumber_def encodeNumber_loop_snoc)
qed

lemma comma_notin_encodeNumber: "CHR '','' \<notin> set (encodeNumber num)"
  using set_encodeNumber comma_notin_alphabet by blast

lemma semicolon_notin_encodeNumber: "CHR '';'' \<notin> set (encodeNumber num)"
  using set_encodeNumber semicolon_notin_alphabet by blast

section \<open>Splitting and joining\<close>

lemma split_on_no_sep: "sep \<notin> set s \<Longrightarrow> split_on sep s = [s]"
  by (induction s) auto

lemma split_on_field: "sep \<notin> set s \<Longrightarrow> split_on sep (s @ sep # rest) = s # split_on sep rest"
  by (induction s) auto

lemma foldl_append_concat:
  "foldl (\<lambda>acc x. acc @ f x) a xs = a @ concat (map f xs)"
  by (induction xs arbitrary: a) auto

section \<open>Run-length strategy: decoding undoes encoding\<close>

lemma encodeRunLength_eq:
  "numbers \<noteq> [] \<Longrightarrow>
     encodeRunLength numbers
       = (''R'' @ concat (map run_record (find_runs (sort numbers))), sort numbers)"
proof -
  have "(\<lambda>encoded (start, len). encoded @ encodeNumber start @ '','' @ encodeNumber len @ '';'')
      = (\<lambda>encoded r. encoded @ run_record r)"
    by (auto simp: run_record_def fun_eq_iff)
  then show "numbers \<noteq> [] \<Longrightarrow> ?thesis"
    by (simp add: encodeRunLength_def Let_def foldl_append_concat)
qed

lemma run_record_part: "run_record r = run_part r @ '';''"
  by (cases r) (simp add: run_record_def run_part_def)

lemma semicolon_notin_run_part: "CHR '';'' \<notin> set (run_part r)"
  by (cases r) (simp add: run_part_def semicolon_notin_encodeNumber)

lemma run_part_nonempty: "run_part r \<noteq> []"
  by (cases r) (simp add: run_part_def)

lemma split_runs:
  "split_on CHR '';'' (concat (map run_record runs)) = map run_part runs @ [[]]"
proof (induction runs)
  case Nil
  show ?case by simp
next
  case (Cons r runs)
  have "concat (map run_record (r # runs))
      = run_part r @ CHR '';'' # concat (map run_record runs)"
    by (simp add: run_record_part [of r])
  moreover have "split_on CHR '';'' (run_part r @ CHR '';'' # concat (map run_record runs))
      = run_part r # split_on CHR '';'' (concat (map run_record runs))"
    using semicolon_notin_run_part by (rule split_on_field)
  ultimately show ?case
    using Cons by simp
qed

lemma split_run_fields:
  "split_on CHR '','' (run_part (start, len)) = [encodeNumber start, encodeNumber len]"
  using split_on_field [of "CHR '',''" "encodeNumber start" "encodeNumber len"]
  by (simp add: run_part_def comma_notin_encodeNumber split_on_no_sep)

lemma decodeRunLength_eq:
  "decodeRunLength data
     = concat (map part_values (filter (\<lambda>p. length p > 0) (split_on CHR '';'' data)))"
proof -
  have "(\<lambda>numbers part.
           let runData = split_on CHR '','' part
           in if length runData \<ge> 2
              then
                let start = decodeNumber (runData ! 0);
                    len = decodeNumber (runData ! 1)
                in numbers @ map (\<lambda>j. start + int j) [0..<nat len]
              else numbers)
      = (\<lambda>numbers part. numbers @ part_values part)"
    by (simp add: fun_eq_iff part_values_def Let_def)
  then show ?thesis
    by (simp add: decodeRunLength_def foldl_append_concat)
qed

lemma part_values_run:
  "0 \<le> fst r \<Longrightarrow> 0 \<le> snd r \<Longrightarrow> part_values (run_part r) = run_values r"
  by (cases r)
    (simp add: part_values_def split_run_fields decode_encodeNumber run_values_def)

lemma decode_run_records:
  assumes "\<forall>r \<in> set runs. 0 \<le> fst r \<and> 0 \<le> snd r"
  shows "decodeRunLength (concat (map run_record runs)) = concat (map run_values runs)"
proof -
  have keep: "filter (\<lambda>p. length p > 0) (map run_part runs @ [[]]) = map run_part runs"
    by (induction runs) (simp_all add: run_part_nonempty)
  have vals: "map part_values (map run_part runs) = map run_values runs"
    using assms by (simp add: part_values_run)
  have "decodeRunLength (concat (map run_record runs))
      = concat (map part_values (filter (\<lambda>p. length p > 0) (map run_part runs @ [[]])))"
    by (simp only: decodeRunLength_eq split_runs)
  also have "\<dots> = concat (map part_values (map run_part runs))"
    by (simp only: keep)
  also have "\<dots> = concat (map run_values runs)"
    by (simp only: vals)
  finally show ?thesis .
qed

lemma runs_state_0: "runs_state xs 0 = ([], xs ! 0, 1)"
  by (simp add: runs_state_def)

lemma runs_state_Suc: "runs_state xs (Suc k) = run_step xs (runs_state xs k) (Suc k)"
  by (simp add: runs_state_def)

lemma run_values_single: "run_values (x, 1) = [x]"
  by (simp add: run_values_def)

lemma run_values_grow: "0 \<le> len \<Longrightarrow> run_values (start, len + 1) = run_values (start, len) @ [start + len]"
  by (simp add: run_values_def nat_add_distrib)

lemma runs_state_invariant:
  assumes "k < length xs"
  shows "case runs_state xs k of (runs, start, len) \<Rightarrow>
           concat (map run_values runs) @ run_values (start, len) = take (Suc k) xs
           \<and> 1 \<le> len \<and> start + len - 1 = xs ! k \<and> start \<in> set xs
           \<and> (\<forall>r \<in> set runs. fst r \<in> set xs \<and> 1 \<le> snd r)"
  using assms
proof (induction k)
  case 0
  then show ?case
    by (cases xs) (simp_all add: runs_state_0 run_values_single)
next
  case (Suc k)
  obtain runs start len where st: "runs_state xs k = (runs, start, len)"
    by (cases "runs_state xs k")
  from Suc st have inv:
    "concat (map run_values runs) @ run_values (start, len) = take (Suc k) xs"
    "1 \<le> len" "start + len - 1 = xs ! k" "start \<in> set xs"
    "\<forall>r \<in> set runs. fst r \<in> set xs \<and> 1 \<le> snd r"
    by simp_all
  have tk: "take (Suc (Suc k)) xs = take (Suc k) xs @ [xs ! Suc k]"
    using Suc.prems by (simp add: take_Suc_conv_app_nth)
  have mem: "xs ! Suc k \<in> set xs"
    using Suc.prems by simp
  show ?case
  proof (cases "xs ! Suc k = xs ! k + 1")
    case True
    then have "runs_state xs (Suc k) = (runs, start, len + 1)"
      by (simp add: runs_state_Suc st run_step_def)
    moreover have "run_values (start, len + 1) = run_values (start, len) @ [xs ! Suc k]"
      using inv(2,3) True by (simp add: run_values_grow)
    ultimately show ?thesis
      using inv True tk by simp
  next
    case False
    then have "runs_state xs (Suc k) = (runs @ [(start, len)], xs ! Suc k, 1)"
      by (simp add: runs_state_Suc st run_step_def)
    then show ?thesis
      using inv tk mem by (simp add: run_values_single)
  qed
qed

lemma find_runs_eq:
  "k = length xs - 1 \<Longrightarrow>
     find_runs xs = (case runs_state xs k of (runs, start, len) \<Rightarrow> runs @ [(start, len)])"
  by (cases xs) (simp_all add: find_runs_def runs_state_def)

lemma find_runs_values: "xs \<noteq> [] \<Longrightarrow> concat (map run_values (find_runs xs)) = xs"
proof -
  assume ne: "xs \<noteq> []"
  define k where "k = length xs - 1"
  with ne have k: "k < length xs" "Suc k = length xs"
    by (cases xs; simp)+
  obtain runs start len where st: "runs_state xs k = (runs, start, len)"
    by (cases "runs_state xs k")
  from runs_state_invariant [OF k(1)] st k(2)
  have "concat (map run_values runs) @ run_values (start, len) = xs"
    by simp
  then show ?thesis
    by (simp add: find_runs_eq [OF k_def] st)
qed

lemma find_runs_members:
  assumes "xs \<noteq> []" and "r \<in> set (find_runs xs)"
  shows "fst r \<in> set xs \<and> 1 \<le> snd r"
proof -
  define k where "k = length xs - 1"
  with assms(1) have k: "k < length xs"
    by (cases xs) simp_all
  obtain runs start len where st: "runs_state xs k = (runs, start, len)"
    by (cases "runs_state xs k")
  from runs_state_invariant [OF k] st
  have "1 \<le> len" "start \<in> set xs" "\<forall>r \<in> set runs. fst r \<in> set xs \<and> 1 \<le> snd r"
    by simp_all
  moreover have "r \<in> set runs \<or> r = (start, len)"
    using assms(2) by (auto simp: find_runs_eq [OF k_def] st)
  ultimately show ?thesis
    by auto
qed

lemma runLength_roundtrip:
  assumes "numbers \<noteq> []" and "\<forall>x \<in> set numbers. 0 \<le> x"
  shows "decodeRunLength (tl (fst (encodeRunLength numbers))) = sort numbers"
proof -
  have ne: "sort numbers \<noteq> []"
    using assms(1) by (metis length_sort length_0_conv)
  have "\<forall>r \<in> set (find_runs (sort numbers)). 0 \<le> fst r \<and> 0 \<le> snd r"
  proof
    fix r
    assume "r \<in> set (find_runs (sort numbers))"
    from find_runs_members [OF ne this] assms(2)
    show "0 \<le> fst r \<and> 0 \<le> snd r"
      by auto
  qed
  then have "decodeRunLength (concat (map run_record (find_runs (sort numbers))))
      = concat (map run_values (find_runs (sort numbers)))"
    by (rule decode_run_records)
  then show ?thesis
    using assms(1) ne by (simp add: encodeRunLength_eq find_runs_values)
qed

section \<open>Direct strategy: decoding undoes encoding\<close>

lemma encodeDirect_eq:
  "encodeDirect numbers = ''D'' @ concat (map (\<lambda>num. encodeNumber num @ '','') (sort numbers))"
  by (simp add: encodeDirect_def foldl_append_concat)

lemma decodeDirect_eq:
  "decodeDirect data
     = concat (map direct_value (filter (\<lambda>p. length p > 0) (split_on CHR '','' data)))"
proof -
  have "(\<lambda>numbers part.
           let num = decodeNumber part
           in if num \<ge> 1 \<and> num \<le> 300 then numbers @ [num] else numbers)
      = (\<lambda>numbers part. numbers @ direct_value part)"
    by (simp add: fun_eq_iff direct_value_def Let_def)
  then show ?thesis
    by (simp add: decodeDirect_def foldl_append_concat)
qed

lemma split_direct_fields:
  "split_on CHR '','' (concat (map (\<lambda>num. encodeNumber num @ '','') vs))
     = map encodeNumber vs @ [[]]"
proof (induction vs)
  case Nil
  show ?case by simp
next
  case (Cons v vs)
  have "split_on CHR '','' (encodeNumber v @ CHR '','' # concat (map (\<lambda>num. encodeNumber num @ '','') vs))
      = encodeNumber v # split_on CHR '','' (concat (map (\<lambda>num. encodeNumber num @ '','') vs))"
    using comma_notin_encodeNumber by (rule split_on_field)
  then show ?case
    using Cons by simp
qed

lemma encodeNumber_negative: "num < 0 \<Longrightarrow> encodeNumber num = []"
  by (simp add: encodeNumber_def encodeNumber_loop_nonpos)

lemma direct_fields_values:
  "concat (map direct_value (filter (\<lambda>p. length p > 0) (map encodeNumber vs)))
     = filter (\<lambda>v. 1 \<le> v \<and> v \<le> 300) vs"
proof (induction vs)
  case Nil
  show ?case by simp
next
  case (Cons v vs)
  show ?case
  proof (cases "v < 0")
    case True
    then show ?thesis
      using Cons by (simp add: encodeNumber_negative)
  next
    case False
    then have "encodeNumber v \<noteq> []" "decodeNumber (encodeNumber v) = v"
      by (simp_all add: encodeNumber_nonempty decode_encodeNumber)
    then show ?thesis
      using Cons by (simp add: direct_value_def)
  qed
qed

lemma direct_roundtrip:
  "decodeDirect (tl (encodeDirect numbers)) = filter (\<lambda>v. 1 \<le> v \<and> v \<le> 300) (sort numbers)"
proof -
  have "filter (\<lambda>p. length p > 0) (map encodeNumber (sort numbers) @ [[]])
      = filter (\<lambda>p. length p > 0) (map encodeNumber (sort numbers))"
    by simp
  then show ?thesis
    by (simp only: encodeDirect_eq decodeDirect_eq split_direct_fields direct_fields_values
        append_Cons append_Nil list.sel)
qed

section \<open>Binary digit strings\<close>

declare toString2.simps [simp del]

lemma is_bits_append: "is_bits (s @ t) \<longleftrightarrow> is_bits s \<and> is_bits t"
  by (auto simp: is_bits_def)

lemma is_bits_replicate0: "is_bits (replicate n CHR ''0'')"
  by (simp add: is_bits_def)

lemma is_bits_take: "is_bits s \<Longrightarrow> is_bits (take n s)"
  by (auto simp: is_bits_def dest: in_set_takeD)

lemma is_bits_drop: "is_bits s \<Longrightarrow> is_bits (drop n s)"
  by (auto simp: is_bits_def dest: in_set_dropD)

lemma is_bits_concat: "(\<forall>s \<in> set ss. is_bits s) \<Longrightarrow> is_bits (concat ss)"
  by (auto simp: is_bits_def)

lemma bits_val_Nil: "bits_val [] = 0"
  by (simp add: bits_val_def)

lemma bits_val_snoc: "bits_val (s @ [c]) = 2 * bits_val s + (if c = CHR ''1'' then 1 else 0)"
  by (simp add: bits_val_def)

lemma parseInt2_bits: "is_bits s \<Longrightarrow> s \<noteq> [] \<Longrightarrow> parseInt2 s = Some (bits_val s)"
proof -
  assume b: "is_bits s" and ne: "s \<noteq> []"
  have tw: "takeWhile (\<lambda>c. c = CHR ''0'' \<or> c = CHR ''1'') s = s"
    using b by (simp add: is_bits_def takeWhile_eq_all_conv)
  show ?thesis
    unfolding parseInt2_def bits_val_def Let_def tw using ne by simp
qed

lemma toString2_small: "n < 2 \<Longrightarrow> toString2 n = [if n = 0 then CHR ''0'' else CHR ''1'']"
  by (subst toString2.simps) simp

lemma toString2_large:
  "2 \<le> n \<Longrightarrow> toString2 n = toString2 (n div 2) @ [if n mod 2 = 0 then CHR ''0'' else CHR ''1'']"
  by (subst toString2.simps) simp

lemma toString2_props:
  "is_bits (toString2 n) \<and> toString2 n \<noteq> [] \<and> bits_val (toString2 n) = n"
proof (induction n rule: less_induct)
  case (less n)
  show ?case
  proof (cases "n < 2")
    case True
    then have "n = 0 \<or> n = 1" by auto
    then show ?thesis
      by (auto simp: toString2_small is_bits_def bits_val_def)
  next
    case False
    then have "n div 2 < n" by simp
    from less [OF this] have ih: "is_bits (toString2 (n div 2))"
      "toString2 (n div 2) \<noteq> []" "bits_val (toString2 (n div 2)) = n div 2"
      by simp_all
    have "bits_val (toString2 n) = 2 * (n div 2) + (if n mod 2 = 0 then 0 else 1)"
      using False ih(3) by (simp add: toString2_large bits_val_snoc)
    also have "\<dots> = n"
      by presburger
    finally have "bits_val (toString2 n) = n" .
    moreover have "is_bits (toString2 n)"
      using False ih(1) by (simp add: toString2_large is_bits_append) (simp add: is_bits_def)
    moreover have "toString2 n \<noteq> []"
      using False by (simp add: toString2_large)
    ultimately show ?thesis by simp
  qed
qed

lemma length_toString2: "0 < k \<Longrightarrow> n < 2 ^ k \<Longrightarrow> length (toString2 n) \<le> k"
proof (induction n arbitrary: k rule: less_induct)
  case (less n)
  show ?case
  proof (cases "n < 2")
    case True
    then show ?thesis
      using less.prems by (simp add: toString2_small Suc_leI)
  next
    case False
    obtain j where k: "k = Suc j" using less.prems(1) by (cases k) auto
    have "j \<noteq> 0"
      using False less.prems(2) k by (cases j) auto
    moreover have "n div 2 < 2 ^ j"
      using less.prems(2) k by (simp add: less_mult_imp_div_less mult.commute)
    moreover have "n div 2 < n" using False by simp
    ultimately have "length (toString2 (n div 2)) \<le> j"
      using less.IH by simp
    then show ?thesis
      using False k by (simp add: toString2_large)
  qed
qed

lemma bits_val_replicate0_append: "bits_val (replicate m CHR ''0'' @ s) = bits_val s"
proof -
  have "foldl (\<lambda>acc c. 2 * acc + (if c = CHR ''1'' then 1 else 0)) (0::nat) (replicate m CHR ''0'') = 0"
    by (induction m) simp_all
  then show ?thesis
    by (simp add: bits_val_def)
qed

lemma padStart_toString2:
  assumes "0 < k" and "n < 2 ^ k"
  shows "length (padStart k CHR ''0'' (toString2 n)) = k"
    and "is_bits (padStart k CHR ''0'' (toString2 n))"
    and "parseInt2 (padStart k CHR ''0'' (toString2 n)) = Some n"
proof -
  have len: "length (toString2 n) \<le> k"
    using assms by (rule length_toString2)
  then show l: "length (padStart k CHR ''0'' (toString2 n)) = k"
    by (simp add: padStart_def)
  show b: "is_bits (padStart k CHR ''0'' (toString2 n))"
    by (simp add: padStart_def is_bits_append is_bits_replicate0 toString2_props)
  have "padStart k CHR ''0'' (toString2 n) \<noteq> []"
    using l assms(1) by auto
  then show "parseInt2 (padStart k CHR ''0'' (toString2 n)) = Some n"
    using b by (simp add: parseInt2_bits) (simp add: padStart_def bits_val_replicate0_append toString2_props)
qed

lemma bits_val_zero: "is_bits s \<Longrightarrow> bits_val s = 0 \<Longrightarrow> s = replicate (length s) CHR ''0''"
proof (induction s rule: rev_induct)
  case Nil
  show ?case by simp
next
  case (snoc c s)
  then have "bits_val s = 0" "c = CHR ''0''" "is_bits s"
    by (auto simp: bits_val_snoc is_bits_append is_bits_def split: if_splits)
  with snoc.IH have "s = replicate (length s) CHR ''0''" by simp
  then have "s @ [c] = replicate (length s) CHR ''0'' @ [CHR ''0'']"
    using \<open>c = CHR ''0''\<close> by simp
  then show ?case
    by (simp add: replicate_append_same)
qed

lemma bits_val_bound: "bits_val s < 2 ^ length s"
proof (induction s rule: rev_induct)
  case Nil
  show ?case by (simp add: bits_val_Nil)
next
  case (snoc c s)
  then show ?case by (simp add: bits_val_snoc)
qed

lemma padStart_bits_val:
  "is_bits s \<Longrightarrow> s \<noteq> [] \<Longrightarrow> padStart (length s) CHR ''0'' (toString2 (bits_val s)) = s"
proof (induction s rule: rev_induct)
  case Nil
  then show ?case by simp
next
  case (snoc c s)
  from snoc.prems have bs: "is_bits s" and c: "c = CHR ''0'' \<or> c = CHR ''1''"
    by (simp_all add: is_bits_append is_bits_def)
  let ?d = "if c = CHR ''1'' then 1 else (0::nat)"
  have v: "bits_val (s @ [c]) = 2 * bits_val s + ?d"
    by (simp add: bits_val_snoc)
  show ?case
  proof (cases "bits_val s = 0")
    case True
    with bs have "s = replicate (length s) CHR ''0''"
      by (rule bits_val_zero)
    moreover have "toString2 ?d = [c]"
      using c by (auto simp: toString2_small)
    ultimately show ?thesis
      using True v by (simp add: padStart_def)
  next
    case False
    then have ne: "s \<noteq> []" by (auto simp: bits_val_Nil)
    have ih: "padStart (length s) CHR ''0'' (toString2 (bits_val s)) = s"
      using snoc.IH bs ne by simp
    have big: "2 \<le> 2 * bits_val s + ?d" "(2 * bits_val s + ?d) div 2 = bits_val s"
      "(2 * bits_val s + ?d) mod 2 = ?d"
      using False by auto
    have last: "(if ?d = 0 then CHR ''0'' else CHR ''1'') = c"
      using c by auto
    have "toString2 (2 * bits_val s + ?d) = toString2 (bits_val s) @ [c]"
      using toString2_large [OF big(1)] last by (simp only: big)
    moreover have "length (toString2 (bits_val s)) \<le> length s"
      using ne bits_val_bound by (intro length_toString2) auto
    ultimately show ?thesis
      using ih v by (simp add: padStart_def Suc_diff_le)
  qed
qed

section \<open>Bit packing: the packed symbols carry the bit string\<close>

declare pack_loop.simps [simp del]

lemma chunk_symbol:
  assumes "is_bits chunk" and "length chunk = 6"
  obtains c where "alphabet_at (parseInt2 chunk) = [c]" and "c \<in> set alphabet"
    and "\<And>acc. unpack_char acc c = acc @ chunk"
proof -
  have ne: "chunk \<noteq> []" using assms(2) by auto
  have "bits_val chunk < 2 ^ length chunk"
    by (rule bits_val_bound)
  then have lt: "bits_val chunk < 64"
    by (simp add: assms(2))
  then have in_range: "bits_val chunk < length alphabet"
    by (simp add: length_alphabet)
  have at: "alphabet_at (parseInt2 chunk) = [alphabet ! bits_val chunk]"
    using assms(1) ne in_range by (simp add: parseInt2_bits alphabet_at_def)
  have mem: "alphabet ! bits_val chunk \<in> set alphabet"
    using in_range by simp
  have idx: "indexOf alphabet (alphabet ! bits_val chunk) = int (bits_val chunk)"
    using distinct_alphabet in_range by (rule indexOf_nth)
  have "padStart 6 CHR ''0'' (toString2 (bits_val chunk)) = chunk"
    using padStart_bits_val [OF assms(1) ne] by (simp add: assms(2))
  then have "unpack_char acc (alphabet ! bits_val chunk) = acc @ chunk" for acc
    by (simp add: unpack_char_def idx)
  with at mem show thesis
    by (rule that)
qed

lemma pack_loop_step:
  "i < length bitString \<Longrightarrow>
     pack_loop bitString i
       = alphabet_at (parseInt2 (padEnd 6 CHR ''0'' (take 6 (drop i bitString))))
         # pack_loop bitString (i + 6)"
  by (subst pack_loop.simps) (simp add: slice_def Let_def)

lemma pack_loop_done: "length bitString \<le> i \<Longrightarrow> pack_loop bitString i = []"
  by (subst pack_loop.simps) simp

lemma unpack_pack:
  assumes "is_bits bitString"
  shows "\<exists>zs. foldl unpack_char acc (concat (pack_loop bitString i))
           = acc @ drop i bitString @ zs"
  using assms
proof (induction bitString i arbitrary: acc rule: pack_loop.induct)
  case (1 bitString i)
  show ?case
  proof (cases "i < length bitString")
    case False
    then show ?thesis
      by (simp add: pack_loop_done)
  next
    case True
    let ?d = "drop i bitString"
    let ?chunk = "padEnd 6 CHR ''0'' (take 6 ?d)"
    have bits: "is_bits ?chunk"
      using "1.prems"
      by (simp add: padEnd_def is_bits_append is_bits_replicate0 is_bits_take is_bits_drop)
    have len: "length ?chunk = 6"
      by (simp add: padEnd_def)
    obtain c where sym: "alphabet_at (parseInt2 ?chunk) = [c]"
      "\<And>acc. unpack_char acc c = acc @ ?chunk"
      using chunk_symbol [OF bits len] by metis
    obtain zs where zs: "foldl unpack_char (acc @ ?chunk) (concat (pack_loop bitString (i + 6)))
        = (acc @ ?chunk) @ drop (i + 6) bitString @ zs"
      using "1.IH" [OF True refl refl "1.prems", of "acc @ ?chunk"] by blast
    have "foldl unpack_char acc (concat (pack_loop bitString i))
        = foldl unpack_char (unpack_char acc c) (concat (pack_loop bitString (i + 6)))"
      by (simp add: pack_loop_step [OF True] sym(1))
    also have "\<dots> = (acc @ ?chunk) @ drop (i + 6) bitString @ zs"
      by (simp only: sym(2) zs)
    finally have eq: "foldl unpack_char acc (concat (pack_loop bitString i))
        = acc @ ?chunk @ drop (i + 6) bitString @ zs"
      by simp
    have "\<exists>zs'. ?chunk @ drop (i + 6) bitString @ zs = ?d @ zs'"
    proof (cases "6 \<le> length ?d")
      case True
      have rest: "drop (i + 6) bitString = drop 6 ?d"
        by (simp add: add.commute)
      have full: "?chunk = take 6 ?d"
        using True by (simp add: padEnd_def)
      have "?chunk @ drop (i + 6) bitString @ zs = (take 6 ?d @ drop 6 ?d) @ zs"
        unfolding rest full by simp
      also have "\<dots> = ?d @ zs"
        by (simp only: append_take_drop_id)
      finally show ?thesis by blast
    next
      case False
      then have "take 6 ?d = ?d" "drop (i + 6) bitString = []"
        by simp_all
      then have "?chunk @ drop (i + 6) bitString @ zs
          = ?d @ replicate (6 - length ?d) CHR ''0'' @ zs"
        by (simp add: padEnd_def)
      then show ?thesis by blast
    qed
    then show ?thesis
      using eq by auto
  qed
qed

section \<open>Bit packing: reading the records back\<close>

lemma entry_bits_props:
  assumes "entry_ok e"
  shows "length (entry_bits e) = 17"
    and "is_bits (entry_bits e)"
    and "parseInt2 (take 9 (entry_bits e)) = Some (nat (fst e - 1))"
    and "parseInt2 (take 8 (drop 9 (entry_bits e))) = Some (nat (min (snd e) 255))"
proof -
  obtain num cnt where e: "e = (num, cnt)" by (cases e)
  let ?nb = "padStart 9 CHR ''0'' (toString2 (nat (num - 1)))"
  let ?cb = "padStart 8 CHR ''0'' (toString2 (nat (min cnt 255)))"
  have eb: "entry_bits e = ?nb @ ?cb"
    by (simp add: e entry_bits_def)
  have "num - 1 < 512"
    using assms by (simp add: e entry_ok_def)
  then have "nat (num - 1) < 2 ^ 9"
    by simp
  then have nb: "length ?nb = 9" "is_bits ?nb" "parseInt2 ?nb = Some (nat (num - 1))"
    by (simp_all add: padStart_toString2)
  have "nat (min cnt 255) < 2 ^ 8"
    by simp
  then have cb: "length ?cb = 8" "is_bits ?cb" "parseInt2 ?cb = Some (nat (min cnt 255))"
    by (simp_all add: padStart_toString2)
  show "length (entry_bits e) = 17"
    by (simp add: eb nb(1) cb(1))
  show "is_bits (entry_bits e)"
    by (simp add: eb is_bits_append nb(2) cb(2))
  show "parseInt2 (take 9 (entry_bits e)) = Some (nat (fst e - 1))"
    unfolding eb by (simp add: nb(1) nb(3) e)
  show "parseInt2 (take 8 (drop 9 (entry_bits e))) = Some (nat (min (snd e) 255))"
    unfolding eb by (simp add: nb(1) cb(1) cb(3) e)
qed

lemma drop_concat_blocks:
  "\<forall>b \<in> set bs. length b = m \<Longrightarrow> i \<le> length bs \<Longrightarrow>
     drop (m * i) (concat bs @ zs) = concat (drop i bs) @ zs"
proof (induction bs arbitrary: i)
  case Nil
  then show ?case by simp
next
  case (Cons b bs)
  show ?case
  proof (cases i)
    case 0
    then show ?thesis by simp
  next
    case (Suc j)
    have "drop (m * Suc j) (concat (b # bs) @ zs) = drop (m * j) (concat bs @ zs)"
      using Cons.prems(1) by simp
    also have "\<dots> = concat (drop j bs) @ zs"
      using Cons.IH [of j] Cons.prems Suc by simp
    finally show ?thesis
      using Suc by simp
  qed
qed

lemma length_concat_blocks:
  "\<forall>b \<in> set bs. length b = m \<Longrightarrow> length (concat bs) = m * length bs"
  by (induction bs) simp_all

lemma read_entry_record:
  assumes ok: "\<forall>e \<in> set entries. entry_ok e" and i: "i < length entries"
  shows "read_entry (concat (map entry_bits entries) @ zs) numbers i
           = numbers @ entry_values (entries ! i)"
proof -
  define B where "B = concat (map entry_bits entries) @ zs"
  let ?e = "entries ! i"
  have blocks: "\<forall>b \<in> set (map entry_bits entries). length b = 17"
    using ok by (simp add: entry_bits_props(1))
  have eok: "entry_ok ?e"
    using ok i by simp
  have "drop (17 * i) B = concat (drop i (map entry_bits entries)) @ zs"
    unfolding B_def using blocks i by (intro drop_concat_blocks) simp_all
  also have "drop i (map entry_bits entries)
      = entry_bits ?e # drop (Suc i) (map entry_bits entries)"
    using i by (simp add: Cons_nth_drop_Suc [symmetric])
  finally obtain rest where "drop (17 * i) B = entry_bits ?e @ rest"
    by simp
  then have d: "drop (i * 17) B = entry_bits ?e @ rest"
    by (simp only: mult.commute)
  have len: "length (entry_bits ?e) = 17"
    using eok by (rule entry_bits_props(1))
  have "slice (i * 17) (i * 17 + 9) B = take 9 (drop (i * 17) B)"
    by (simp only: slice_def add_diff_cancel_left')
  then have nb: "slice (i * 17) (i * 17 + 9) B = take 9 (entry_bits ?e)"
    using len by (simp add: d)
  have "drop (i * 17 + 9) B = drop 9 (drop (i * 17) B)"
    by (simp only: drop_drop add.commute)
  then have "drop (i * 17 + 9) B = drop 9 (entry_bits ?e) @ rest"
    using len by (simp add: d)
  moreover have "slice (i * 17 + 9) (i * 17 + 9 + 8) B = take 8 (drop (i * 17 + 9) B)"
    by (simp only: slice_def add_diff_cancel_left')
  ultimately have cb: "slice (i * 17 + 9) (i * 17 + 9 + 8) B = take 8 (drop 9 (entry_bits ?e))"
    using len by simp
  have "length (concat (map entry_bits entries)) = 17 * length entries"
    using length_concat_blocks [OF blocks] by simp
  then have fits: "i * 17 + 9 + 8 \<le> length B"
    using i by (simp add: B_def)
  have vals: "int (nat (fst ?e - 1)) + 1 = fst ?e" "0 < nat (min (snd ?e) 255)"
    "1 \<le> fst ?e" "fst ?e \<le> 300"
    using eok by (simp_all add: entry_ok_def)
  have "read_entry B numbers i = numbers @ entry_values (entries ! i)"
    unfolding read_entry_def Let_def nb cb entry_bits_props(3,4) [OF eok]
    using fits vals by (simp add: entry_values_def)
  then show ?thesis
    by (simp only: B_def)
qed

lemma read_entries:
  assumes ok: "\<forall>e \<in> set entries. entry_ok e"
  shows "k \<le> length entries \<Longrightarrow>
    foldl (read_entry (concat (map entry_bits entries) @ zs)) [] [0..<k]
      = concat (map entry_values (take k entries))"
proof (induction k)
  case 0
  show ?case by simp
next
  case (Suc k)
  then have k: "k < length entries" by simp
  have "foldl (read_entry (concat (map entry_bits entries) @ zs)) [] [0..<Suc k]
      = concat (map entry_values (take k entries)) @ entry_values (entries ! k)"
    using Suc k by (simp add: read_entry_record [OF ok k])
  then show ?case
    using k by (simp add: take_Suc_conv_app_nth)
qed

lemma indexOf_first: "c \<notin> set s \<Longrightarrow> indexOf (s @ c # rest) c = int (length s)"
proof -
  assume "c \<notin> set s"
  then have "takeWhile (\<lambda>x. x \<noteq> c) (s @ c # rest) = s"
    by (induction s) auto
  then show ?thesis
    by (simp add: indexOf_def)
qed

lemma foldl_entry_bits:
  "foldl (\<lambda>bitString e. bitString @ entry_bits e) [] entries = concat (map entry_bits entries)"
  using foldl_append_concat [of entry_bits "[]" entries] by simp

lemma encodeBitPacking_eq:
  "numbers \<noteq> [] \<Longrightarrow>
     encodeBitPacking numbers
       = ''B'' @ encodeNumber (int (length (freq_entries numbers))) @ '',''
         @ concat (pack_loop (concat (map entry_bits (freq_entries numbers))) 0)"
  by (simp add: encodeBitPacking_def Let_def foldl_entry_bits)

lemma decode_packed_entries:
  assumes ok: "\<forall>e \<in> set entries. entry_ok e"
  shows "decodeBitPacking (encodeNumber (int (length entries)) @ '',''
           @ concat (pack_loop (concat (map entry_bits entries)) 0))
         = sort (concat (map entry_values entries))"
proof -
  define hdr where "hdr = encodeNumber (int (length entries))"
  define bits where "bits = concat (map entry_bits entries)"
  define packed where "packed = concat (pack_loop bits 0)"
  define data where "data = hdr @ CHR '','' # packed"
  have "CHR '','' \<notin> set hdr"
    unfolding hdr_def by (rule comma_notin_encodeNumber)
  then have pos: "indexOf data CHR '','' = int (length hdr)"
    unfolding data_def by (rule indexOf_first)
  have cnt: "decodeNumber hdr = int (length entries)"
    by (simp add: hdr_def decode_encodeNumber)
  have fields: "take (length hdr) data = hdr" "drop (Suc (length hdr)) data = packed"
    "data \<noteq> []"
    by (simp_all add: data_def)
  have "is_bits bits"
    unfolding bits_def using ok by (intro is_bits_concat) (simp add: entry_bits_props(2))
  then obtain zs where zs: "foldl unpack_char [] packed = bits @ zs"
    unfolding packed_def using unpack_pack [of bits "[]" 0] by auto
  have "decodeBitPacking data = sort (concat (map entry_values entries))"
  proof (cases "entries = []")
    case True
    then show ?thesis
      using cnt by (simp add: decodeBitPacking_def Let_def pos fields)
  next
    case False
    then have "decodeBitPacking data
        = sort (foldl (read_entry (bits @ zs)) [] [0..<length entries])"
      by (simp add: decodeBitPacking_def Let_def pos cnt zs fields)
    also have "\<dots> = sort (concat (map entry_values (take (length entries) entries)))"
      unfolding bits_def using read_entries [OF ok, of "length entries" zs] by simp
    finally show ?thesis by simp
  qed
  then show ?thesis
    by (simp add: data_def packed_def bits_def hdr_def)
qed

section \<open>The frequency table\<close>

lemma build_freq_eq: "build_freq numbers = foldl freq_step [] numbers"
proof -
  have "(\<lambda>freq num. if num \<ge> 1 \<and> num \<le> 300 then freq_incr freq num else freq) = freq_step"
    by (simp add: fun_eq_iff freq_step_def)
  then show ?thesis
    by (simp add: build_freq_def)
qed

lemma map_of_freq_incr:
  "map_of (freq_incr freq num) = (map_of freq)(num \<mapsto> freq_count freq num + 1)"
  by (simp add: freq_incr_def freq_count_def update_conv')

lemma distinct_freq_step:
  "distinct (map fst freq) \<Longrightarrow> distinct (map fst (freq_step freq num))"
  by (simp add: freq_step_def freq_incr_def distinct_update)

lemma freq_count_step:
  "freq_count (freq_step freq num) v
     = (if in_range num \<and> num = v then freq_count freq v + 1 else freq_count freq v)"
  by (simp add: freq_step_def in_range_def freq_count_def map_of_freq_incr)

lemma dom_freq_step:
  "dom (map_of (freq_step freq num))
     = (if in_range num then insert num (dom (map_of freq)) else dom (map_of freq))"
  by (simp add: freq_step_def in_range_def map_of_freq_incr)

lemma distinct_foldl_freq_step:
  "distinct (map fst freq) \<Longrightarrow> distinct (map fst (foldl freq_step freq xs))"
  by (induction xs arbitrary: freq) (simp_all add: distinct_freq_step)

lemma freq_count_foldl_freq_step:
  "freq_count (foldl freq_step freq xs) v
     = freq_count freq v + (if in_range v then int (count_list xs v) else 0)"
  by (induction xs arbitrary: freq) (simp_all add: freq_count_step)

lemma dom_foldl_freq_step:
  "dom (map_of (foldl freq_step freq xs)) = dom (map_of freq) \<union> {x \<in> set xs. in_range x}"
proof (induction xs arbitrary: freq)
  case Nil
  show ?case by simp
next
  case (Cons x xs)
  have "dom (map_of (foldl freq_step freq (x # xs)))
      = dom (map_of (freq_step freq x)) \<union> {y \<in> set xs. in_range y}"
    using Cons [of "freq_step freq x"] by simp
  also have "\<dots> = dom (map_of freq) \<union> {y \<in> set (x # xs). in_range y}"
    unfolding dom_freq_step by (cases "in_range x") auto
  finally show ?case .
qed

lemma build_freq_props:
  "distinct (map fst (build_freq xs))"
  "freq_count (build_freq xs) v = (if in_range v then int (count_list xs v) else 0)"
  "fst ` set (build_freq xs) = {x \<in> set xs. in_range x}"
proof -
  show "distinct (map fst (build_freq xs))"
    using distinct_foldl_freq_step [of "[]" xs] by (simp add: build_freq_eq)
  show "freq_count (build_freq xs) v = (if in_range v then int (count_list xs v) else 0)"
    using freq_count_foldl_freq_step [of "[]" xs v] by (simp add: build_freq_eq freq_count_def)
  show "fst ` set (build_freq xs) = {x \<in> set xs. in_range x}"
    using dom_foldl_freq_step [of "[]" xs]
    by (simp add: build_freq_eq dom_map_of_conv_image_fst)
qed

lemma freq_entries_props:
  "sorted (map fst (freq_entries xs))"
  "distinct (map fst (freq_entries xs))"
  "set (map fst (freq_entries xs)) = {x \<in> set xs. in_range x}"
  "e \<in> set (freq_entries xs) \<Longrightarrow> snd e = int (count_list xs (fst e))"
proof -
  show "sorted (map fst (freq_entries xs))"
    by (simp add: freq_entries_def)
  have "mset (map fst (freq_entries xs)) = mset (map fst (build_freq xs))"
    by (simp add: freq_entries_def)
  then show "distinct (map fst (freq_entries xs))"
    using build_freq_props(1) [of xs] by (metis mset_eq_imp_distinct_iff)
  have "set (map fst (freq_entries xs)) = fst ` set (build_freq xs)"
    by (simp add: freq_entries_def)
  then show keys: "set (map fst (freq_entries xs)) = {x \<in> set xs. in_range x}"
    by (simp only: build_freq_props(3))
  assume "e \<in> set (freq_entries xs)"
  then have mem: "(fst e, snd e) \<in> set (build_freq xs)"
    by (simp add: freq_entries_def)
  then have "map_of (build_freq xs) (fst e) = Some (snd e)"
    using build_freq_props(1) [of xs] by simp
  then have "freq_count (build_freq xs) (fst e) = snd e"
    by (simp add: freq_count_def)
  moreover have "fst e \<in> fst ` set (build_freq xs)"
    using mem by (rule image_eqI [rotated]) simp
  then have "in_range (fst e)"
    by (simp only: build_freq_props(3)) simp
  ultimately show "snd e = int (count_list xs (fst e))"
    by (simp add: build_freq_props(2))
qed

lemma freq_entries_eq:
  "freq_entries xs
     = map (\<lambda>v. (v, int (count_list xs v))) (sorted_list_of_set {x \<in> set xs. in_range x})"
proof -
  let ?E = "freq_entries xs"
  have "sorted_list_of_set (set (map fst ?E)) = map fst ?E"
    using freq_entries_props(1,2) [of xs]
    by (rule sorted_list_of_set.idem_if_sorted_distinct)
  then have keys: "map fst ?E = sorted_list_of_set {x \<in> set xs. in_range x}"
    by (simp only: freq_entries_props(3))
  have "?E = map (\<lambda>e. (fst e, int (count_list xs (fst e)))) ?E"
    using freq_entries_props(4) [of _ xs] by (simp add: map_idI prod_eq_iff)
  also have "\<dots> = map (\<lambda>v. (v, int (count_list xs v))) (map fst ?E)"
    by simp
  finally show ?thesis
    by (simp only: keys)
qed

lemma freq_entries_ok: "\<forall>e \<in> set (freq_entries xs). entry_ok e"
proof
  fix e
  assume e: "e \<in> set (freq_entries xs)"
  then have "fst e \<in> set (map fst (freq_entries xs))"
    by simp
  then have "fst e \<in> {x \<in> set xs. in_range x}"
    by (simp only: freq_entries_props(3))
  then have k: "fst e \<in> set xs" "in_range (fst e)"
    by simp_all
  have "count_list xs (fst e) \<noteq> 0"
    using k(1) by (simp only: count_list_0_iff) simp
  then have "0 < count_list xs (fst e)"
    by simp
  then show "entry_ok e"
    using k(2) freq_entries_props(4) [OF e] by (simp add: entry_ok_def in_range_def)
qed

lemma freq_entries_sort: "freq_entries (sort xs) = freq_entries xs"
proof -
  have "count_list (sort xs) v = count_list xs v" for v
    by (metis count_mset mset_sort)
  then show ?thesis
    by (simp add: freq_entries_eq)
qed

lemma bitPacking_roundtrip:
  "decodeBitPacking (tl (encodeBitPacking numbers))
     = sort (concat (map entry_values (freq_entries numbers)))"
proof (cases "numbers = []")
  case True
  then show ?thesis
    by (simp add: encodeBitPacking_def decodeBitPacking_def freq_entries_def build_freq_def)
next
  case False
  then show ?thesis
    using decode_packed_entries [OF freq_entries_ok, of numbers]
    by (simp add: encodeBitPacking_eq)
qed

section \<open>The selector\<close>

lemma serialize_nonempty:
  "ns \<noteq> [] \<Longrightarrow>
     serialize (Some ns)
       = (pick_shorter (pick_shorter (pick_shorter (encodeDirect ns) (encodeDirect ns))
             (fst (encodeRunLength ns))) (encodeBitPacking ns),
          Some (sort ns))"
proof -
  assume ne: "ns \<noteq> []"
  then have ne': "sort ns \<noteq> []"
    by (metis length_sort length_0_conv)
  have d: "encodeDirect (sort ns) = encodeDirect ns"
    by (simp add: encodeDirect_def sort_key_id_if_sorted)
  have b: "encodeBitPacking (sort ns) = encodeBitPacking ns"
    using ne ne' by (simp add: encodeBitPacking_eq freq_entries_sort)
  have "(\<lambda>shortest current. if length current < length shortest then current else shortest)
      = pick_shorter"
    by (simp add: fun_eq_iff pick_shorter_def)
  then show ?thesis
    using ne by (simp add: serialize_def encodeRunLength_eq Let_def d b)
qed

lemma serialize_cases:
  assumes "ns \<noteq> []"
  shows "fst (serialize (Some ns)) = encodeDirect ns
    \<or> fst (serialize (Some ns)) = fst (encodeRunLength ns)
    \<or> fst (serialize (Some ns)) = encodeBitPacking ns"
  by (simp add: serialize_nonempty [OF assms] pick_shorter_def)

lemma deserialize_direct: "deserialize (Some (encodeDirect ns)) = Inr (decodeDirect (tl (encodeDirect ns)))"
  by (simp add: encodeDirect_eq deserialize_def)

lemma deserialize_runLength:
  "ns \<noteq> [] \<Longrightarrow>
     deserialize (Some (fst (encodeRunLength ns)))
       = Inr (decodeRunLength (tl (fst (encodeRunLength ns))))"
  by (simp add: encodeRunLength_eq deserialize_def)

lemma deserialize_bitPacking:
  "ns \<noteq> [] \<Longrightarrow>
     deserialize (Some (encodeBitPacking ns)) = Inr (decodeBitPacking (tl (encodeBitPacking ns)))"
  by (simp add: encodeBitPacking_eq deserialize_def)

lemma distinct_entry_values:
  assumes "distinct ns" and "\<forall>x \<in> set ns. in_range x"
  shows "concat (map entry_values (freq_entries ns)) = sort ns"
proof -
  have keys: "{x \<in> set ns. in_range x} = set ns"
    using assms(2) by auto
  have srt: "sorted_list_of_set (set ns) = sort ns"
    using assms(1) by (simp add: sorted_list_of_set_sort_remdups distinct_remdups_id)
  have one: "count_list ns v = 1" if "v \<in> set ns" for v
    using assms(1) that by (induction ns) auto
  have "map entry_values (freq_entries ns) = map (\<lambda>v. [v]) (sort ns)"
    by (simp add: freq_entries_eq keys srt entry_values_def one)
  then show ?thesis
    by (simp add: concat_map_singleton)
qed

lemma roundtrip_distinct:
  assumes "distinct ns" and "\<forall>x \<in> set ns. in_range x"
  shows "deserialize (Some (fst (serialize (Some ns)))) = Inr (sort ns)"
proof (cases "ns = []")
  case True
  then show ?thesis
    by (simp add: serialize_def deserialize_def)
next
  case False
  have nonneg: "\<forall>x \<in> set ns. 0 \<le> x"
    using assms(2) by (auto simp: in_range_def)
  have "filter (\<lambda>v. 1 \<le> v \<and> v \<le> 300) (sort ns) = sort ns"
    using assms(2) by (simp add: in_range_def)
  then have d: "deserialize (Some (encodeDirect ns)) = Inr (sort ns)"
    by (simp add: deserialize_direct direct_roundtrip)
  have r: "deserialize (Some (fst (encodeRunLength ns))) = Inr (sort ns)"
    using False nonneg by (simp add: deserialize_runLength runLength_roundtrip)
  have b: "deserialize (Some (encodeBitPacking ns)) = Inr (sort ns)"
    using False
    by (simp add: deserialize_bitPacking bitPacking_roundtrip distinct_entry_values [OF assms]
        sorted_sort_id)
  show ?thesis
    using serialize_cases [OF False] d r b by auto
qed

section \<open>Many copies of one value\<close>

lemma length_pack_loop:
  assumes "is_bits bitString"
  shows "length (concat (pack_loop bitString i)) = (length bitString - i + 5) div 6"
  using assms
proof (induction bitString i rule: pack_loop.induct)
  case (1 bitString i)
  show ?case
  proof (cases "i < length bitString")
    case False
    then show ?thesis
      by (simp add: pack_loop_done)
  next
    case True
    let ?chunk = "padEnd 6 CHR ''0'' (take 6 (drop i bitString))"
    have bits: "is_bits ?chunk"
      using "1.prems"
      by (simp add: padEnd_def is_bits_append is_bits_replicate0 is_bits_take is_bits_drop)
    have len: "length ?chunk = 6"
      by (simp add: padEnd_def)
    obtain c where c: "alphabet_at (parseInt2 ?chunk) = [c]"
      using chunk_symbol [OF bits len] by metis
    have "length (concat (pack_loop bitString i))
        = 1 + (length bitString - (i + 6) + 5) div 6"
      using "1.IH" [OF True refl refl "1.prems"] by (simp add: pack_loop_step [OF True] c)
    also have "\<dots> = (length bitString - i + 5) div 6"
    proof (cases "i + 6 \<le> length bitString")
      case True
      then have "length bitString - i + 5 = (length bitString - (i + 6) + 5) + 6"
        by simp
      then show ?thesis
        by (simp only: div_add_self2)
    next
      case False
      with True have small: "length bitString - (i + 6) = 0"
        "6 * 1 \<le> length bitString - i + 5" "length bitString - i + 5 < 6 * Suc 1"
        by simp_all
      have "(length bitString - i + 5) div 6 = 1"
        using small(2,3) by (rule div_nat_eqI)
      then show ?thesis
        using small(1) by simp
    qed
    finally show ?thesis .
  qed
qed

lemma length_encodeNumber_digit: "0 \<le> v \<Longrightarrow> v < 91 \<Longrightarrow> length (encodeNumber v) = 1"
proof (cases "v = 0")
  case True
  then show ?thesis by (simp add: encodeNumber_def)
next
  case False
  assume "0 \<le> v" "v < 91"
  with False have "0 < v" "v div base = 0"
    by (simp_all add: base_eq)
  then show ?thesis
    by (simp add: encodeNumber_def encodeNumber_loop_snoc encodeNumber_loop_nonpos)
qed










section \<open>Ranges of the decoded values\<close>

lemma decodeDirect_range: "x \<in> set (decodeDirect data) \<Longrightarrow> 1 \<le> x \<and> x \<le> 300"
  by (auto simp: decodeDirect_eq direct_value_def Let_def split: if_splits)

lemma read_entry_range:
  "x \<in> set (read_entry bitString numbers i) \<Longrightarrow> x \<in> set numbers \<or> (1 \<le> x \<and> x \<le> 300)"
  by (auto simp: read_entry_def Let_def split: if_splits option.splits)

lemma read_entries_range:
  "x \<in> set (foldl (read_entry bitString) numbers is) \<Longrightarrow>
     x \<in> set numbers \<or> (1 \<le> x \<and> x \<le> 300)"
proof (induction "is" arbitrary: numbers)
  case Nil
  then show ?case by simp
next
  case (Cons i "is")
  from Cons.IH [of "read_entry bitString numbers i"] Cons.prems
  have "x \<in> set (read_entry bitString numbers i) \<or> (1 \<le> x \<and> x \<le> 300)"
    by simp
  then show ?case
    using read_entry_range by blast
qed

lemma decodeBitPacking_range: "x \<in> set (decodeBitPacking data) \<Longrightarrow> 1 \<le> x \<and> x \<le> 300"
proof -
  assume x: "x \<in> set (decodeBitPacking data)"
  then obtain bitString n where "x \<in> set (foldl (read_entry bitString) [] [0..<n])"
    by (auto simp: decodeBitPacking_def Let_def split: if_splits)
  then show ?thesis
    using read_entries_range [of x bitString "[]"] by auto
qed

lemma pick_shorter_props:
  "pick_shorter (pick_shorter (pick_shorter d d) r) b = first_shortest [d, r, b]
    \<and> pick_shorter (pick_shorter (pick_shorter d d) r) b \<in> {d, r, b}
    \<and> length (pick_shorter (pick_shorter (pick_shorter d d) r) b) \<le> length d
    \<and> length (pick_shorter (pick_shorter (pick_shorter d d) r) b) \<le> length r
    \<and> length (pick_shorter (pick_shorter (pick_shorter d d) r) b) \<le> length b
    \<and> (length d \<le> length r \<and> length d \<le> length b
        \<longrightarrow> pick_shorter (pick_shorter (pick_shorter d d) r) b = d)
    \<and> (length r < length d \<and> length r \<le> length b
        \<longrightarrow> pick_shorter (pick_shorter (pick_shorter d d) r) b = r)
    \<and> (length b < length d \<and> length b < length r
        \<longrightarrow> pick_shorter (pick_shorter (pick_shorter d d) r) b = b)"
  by (auto simp: pick_shorter_def first_shortest_def)

lemma length_encodeBitPacking:
  "numbers \<noteq> [] \<Longrightarrow>
     length (encodeBitPacking numbers)
       = 2 + length (encodeNumber (int (length (freq_entries numbers))))
         + (17 * length (freq_entries numbers) + 5) div 6"
proof -
  assume ne: "numbers \<noteq> []"
  let ?E = "freq_entries numbers"
  have blocks: "\<forall>b \<in> set (map entry_bits ?E). length b = 17"
    using freq_entries_ok [of numbers] by (simp add: entry_bits_props(1))
  have "is_bits (concat (map entry_bits ?E))"
    using freq_entries_ok [of numbers] by (intro is_bits_concat) (simp add: entry_bits_props(2))
  then have "length (concat (pack_loop (concat (map entry_bits ?E)) 0))
      = (length (concat (map entry_bits ?E)) - 0 + 5) div 6"
    by (rule length_pack_loop)
  also have "length (concat (map entry_bits ?E)) = 17 * length ?E"
    using length_concat_blocks [OF blocks] by simp
  finally show ?thesis
    using ne by (simp add: encodeBitPacking_eq)
qed

lemma pair_example:
  "length (encodeDirect [2, 3]) = 5" "length (fst (encodeRunLength [2, 3])) = 5"
  "length (encodeBitPacking [2, 3]) = 9"
proof -
  show "length (encodeDirect [2, 3]) = 5"
    by (simp add: encodeDirect_eq length_encodeNumber_digit)
  have "find_runs [2, 3] = [(2, 2)]"
    by (simp add: find_runs_def run_step_def)
  then show "length (fst (encodeRunLength [2, 3])) = 5"
    by (simp add: encodeRunLength_eq run_record_def length_encodeNumber_digit)
  have "freq_entries [2, 3] = [(2, 1), (3, 1)]"
    by (simp add: freq_entries_def build_freq_def freq_incr_def)
  then show "length (encodeBitPacking [2, 3]) = 9"
    by (simp add: length_encodeBitPacking length_encodeNumber_digit)
qed

lemma deserialize_run_from_zero: "deserialize (Some ''R!,#;'') = Inr [0, 1]"
proof -
  have "alphabet ! 0 = CHR ''!''" "alphabet ! 2 = CHR ''#''"
    by code_simp+
  then have "run_record (0, 2) = ''!,#;''"
    by (simp add: run_record_def encodeNumber_def encodeNumber_loop_snoc encodeNumber_loop_nonpos base_eq)
  moreover have "decodeRunLength (concat (map run_record [(0, 2)])) = concat (map run_values [(0, 2)])"
    by (rule decode_run_records) simp
  ultimately have "decodeRunLength ''!,#;'' = [0, 1]"
    by (simp add: run_values_def upt_rec)
  then show ?thesis
    by (simp add: deserialize_def)
qed

section \<open>Claims about the alphabet and the scalar codec\<close>

text \<open>
  C4. The claim reads: the alphabet has exactly 64 symbols, so the base of the scalar
  numeral system is 64. The constructor builds the alphabet from the 93 characters with
  codes 33 .. 125 and removes the two delimiters, which leaves 91 symbols: the base is
  91, not the 64 that the comment beside \<open>this.base\<close> announces. The number 64 is
  therefore a single digit of the scalar codec (the symbol at index 64) and not the
  two-digit numeral it would be in base 64.
\<close>

theorem alphabet_has_91_symbols:
  "length alphabet = 91 \<and> base = 91 \<and> base \<noteq> 64
   \<and> encodeNumber 64 = [alphabet ! 64] \<and> length (encodeNumber 64) = 1"
proof -
  have "encodeNumber_loop 64 [] = [alphabet ! 64]"
    by (simp add: encodeNumber_loop_snoc encodeNumber_loop_nonpos base_eq)
  then show ?thesis
    by (simp add: length_alphabet base_eq encodeNumber_def)
qed



text \<open>
  C9. \<open>decodeNumber\<close> has no failing branch: it is a total function into the integers.
  A character outside the alphabet is looked up as the sentinel \<open>-1\<close>, which enters the
  accumulation as a digit; on the one-character string \<open>","\<close> the result is \<open>-1\<close>, a
  negative integer.
\<close>

theorem decodeNumber_outside_alphabet:
  "(c \<notin> set alphabet \<longrightarrow> decodeNumber (s @ [c]) = decodeNumber s * base + (- 1))
   \<and> decodeNumber '','' = - 1 \<and> decodeNumber '','' < 0"
proof -
  have "decodeNumber ([] @ '','') = - 1"
    unfolding decodeNumber_snoc by (simp add: decodeNumber_Nil indexOf_notin comma_notin_alphabet)
  then show ?thesis
    by (simp add: decodeNumber_snoc indexOf_notin)
qed

theorem decodeNumber_outside_alphabet_witness:
  "CHR '';'' \<notin> set alphabet \<and> decodeNumber (''#'' @ '';'') = decodeNumber ''#'' * base + (- 1)
   \<and> decodeNumber ''#;'' = 181"
proof -
  have "decodeNumber ''#'' = 2"
    by code_simp
  then show ?thesis
    using decodeNumber_outside_alphabet [of "CHR '';''" "''#''"]
    by (simp add: semicolon_notin_alphabet base_eq)
qed

section \<open>Claims about the strategies and the selector\<close>

text \<open>
  C1. For every array \<open>xs\<close> of distinct integers from 1 to 300, \<open>deserialize\<close> applied to
  \<open>serialize xs\<close> returns without error an array whose set of elements is the set of \<open>xs\<close>,
  whichever of the three strategies the selector has picked; the array returned is
  \<open>xs\<close> in ascending order.
\<close>

theorem roundtrip_for_sets:
  assumes "distinct xs" and "\<forall>x \<in> set xs. 1 \<le> x \<and> x \<le> 300"
  shows "\<exists>ys. deserialize (Some (fst (serialize (Some xs)))) = Inr ys
    \<and> set ys = set xs \<and> ys = sort xs"
proof -
  have "\<forall>x \<in> set xs. in_range x"
    using assms(2) by (simp add: in_range_def)
  with assms(1) have "deserialize (Some (fst (serialize (Some xs)))) = Inr (sort xs)"
    by (rule roundtrip_distinct)
  then show ?thesis by simp
qed

theorem roundtrip_for_sets_witness:
  "\<exists>ys. deserialize (Some (fst (serialize (Some [300, 1, 42])))) = Inr ys
     \<and> set ys = {1, 42, 300} \<and> ys = [1, 42, 300]"
  using roundtrip_for_sets [of "[300, 1, 42]"] by auto







text \<open>
  C5. For every non-empty array, \<open>serialize\<close> returns the first shortest of the three
  candidates in the order Direct, RunLength, BitPacking: a candidate of minimum length,
  Direct when no candidate is strictly shorter than it, RunLength when it is strictly
  shorter than Direct and BitPacking is not strictly shorter than it, and BitPacking only
  when it is strictly shorter than both.
\<close>

theorem serialize_returns_first_shortest:
  assumes "xs \<noteq> []"
  shows "fst (serialize (Some xs))
      = first_shortest [encodeDirect xs, fst (encodeRunLength xs), encodeBitPacking xs]
    \<and> fst (serialize (Some xs))
        \<in> {encodeDirect xs, fst (encodeRunLength xs), encodeBitPacking xs}
    \<and> length (fst (serialize (Some xs))) \<le> length (encodeDirect xs)
    \<and> length (fst (serialize (Some xs))) \<le> length (fst (encodeRunLength xs))
    \<and> length (fst (serialize (Some xs))) \<le> length (encodeBitPacking xs)
    \<and> (length (encodeDirect xs) \<le> length (fst (encodeRunLength xs))
        \<and> length (encodeDirect xs) \<le> length (encodeBitPacking xs)
        \<longrightarrow> fst (serialize (Some xs)) = encodeDirect xs)
    \<and> (length (fst (encodeRunLength xs)) < length (encodeDirect xs)
        \<and> length (fst (encodeRunLength xs)) \<le> length (encodeBitPacking xs)
        \<longrightarrow> fst (serialize (Some xs)) = fst (encodeRunLength xs))
    \<and> (length (encodeBitPacking xs) < length (encodeDirect xs)
        \<and> length (encodeBitPacking xs) < length (fst (encodeRunLength xs))
        \<longrightarrow> fst (serialize (Some xs)) = encodeBitPacking xs)"
  unfolding serialize_nonempty [OF assms] fst_conv by (rule pick_shorter_props)

theorem serialize_returns_first_shortest_witness:
  "length (encodeDirect [2, 3]) = 5 \<and> length (fst (encodeRunLength [2, 3])) = 5
   \<and> length (encodeBitPacking [2, 3]) = 9
   \<and> fst (serialize (Some [2, 3])) = encodeDirect [2, 3]
   \<and> fst (serialize (Some [2, 3]))
       = first_shortest [encodeDirect [2, 3], fst (encodeRunLength [2, 3]), encodeBitPacking [2, 3]]"
proof -
  note len = pair_example
  have ne: "[2, 3 :: int] \<noteq> []"
    by simp
  note sel = serialize_returns_first_shortest [OF ne]
  have fs: "fst (serialize (Some [2, 3]))
      = first_shortest [encodeDirect [2, 3], fst (encodeRunLength [2, 3]), encodeBitPacking [2, 3]]"
    using sel by blast
  have "length (encodeDirect [2, 3]) \<le> length (fst (encodeRunLength [2, 3]))
      \<and> length (encodeDirect [2, 3]) \<le> length (encodeBitPacking [2, 3])
      \<longrightarrow> fst (serialize (Some [2, 3])) = encodeDirect [2, 3]"
    using sel by blast
  then have "fst (serialize (Some [2, 3])) = encodeDirect [2, 3]"
    by (simp add: len)
  then show ?thesis
    unfolding fs [symmetric] using len by simp
qed

text \<open>
  C7. \<open>deserialize\<close> fails with the error "Invalid encoding method" on every non-empty
  string whose first character is none of \<open>E\<close>, \<open>R\<close>, \<open>B\<close>, \<open>D\<close>: the error is the
  result of the call, nothing catches it. On \<open>null\<close>, on the empty string and on the
  string \<open>E\<close> it returns the empty array.
\<close>

theorem deserialize_unknown_marker:
  "(s \<noteq> [] \<and> hd s \<noteq> CHR ''E'' \<and> hd s \<noteq> CHR ''R'' \<and> hd s \<noteq> CHR ''B'' \<and> hd s \<noteq> CHR ''D''
      \<longrightarrow> deserialize (Some s) = Inl InvalidEncodingMethod)
   \<and> deserialize None = Inr []
   \<and> deserialize (Some []) = Inr []
   \<and> deserialize (Some ''E'') = Inr []"
  by (cases s) (simp_all add: deserialize_def)

theorem deserialize_unknown_marker_witness:
  "deserialize (Some ''X#,$,'') = Inl InvalidEncodingMethod"
  using deserialize_unknown_marker [of "''X#,$,''"] by simp

text \<open>
  C8. For every non-empty array, the array of the caller is sorted in ascending order
  after \<open>serialize\<close>: its contents are then a sorted permutation of the contents before
  the call. The sort is the one inside \<open>encodeRunLength\<close>, which sorts its own argument
  in place; \<open>encodeDirect\<close> sorts a copy and has no effect on its argument.
\<close>

theorem serialize_sorts_the_callers_array:
  assumes "xs \<noteq> []"
  shows "snd (serialize (Some xs)) = Some (sort xs)
    \<and> snd (encodeRunLength xs) = sort xs
    \<and> sorted (sort xs) \<and> mset (sort xs) = mset xs"
  using assms by (simp add: serialize_nonempty encodeRunLength_eq)

theorem serialize_sorts_the_callers_array_witness:
  "snd (serialize (Some [3, 1, 2])) = Some [1, 2, 3] \<and> snd (encodeRunLength [3, 1, 2]) = [1, 2, 3]"
  using serialize_sorts_the_callers_array [of "[3, 1, 2]"] by simp

text \<open>
  C10. Every value returned by \<open>decodeDirect\<close> and by \<open>decodeBitPacking\<close> lies between 1
  and 300, whatever the input string. \<open>decodeRunLength\<close> has no such check: on the
  string \<open>R!,#;\<close> (a run of length 2 that starts at 0) \<open>deserialize\<close> returns 0 and 1,
  and 0 is outside the range.
\<close>

theorem decoded_values_in_range:
  "(\<forall>x \<in> set (decodeDirect data). 1 \<le> x \<and> x \<le> 300)
   \<and> (\<forall>x \<in> set (decodeBitPacking data). 1 \<le> x \<and> x \<le> 300)
   \<and> deserialize (Some ''R!,#;'') = Inr [0, 1]
   \<and> \<not> (1 \<le> (0::int))"
  using decodeDirect_range decodeBitPacking_range deserialize_run_from_zero by simp

theorem decoded_values_in_range_witness:
  "decodeDirect ''$?,#,'' = [2] \<and> decodeNumber ''$?'' = 301 \<and> (1::int) \<le> 2 \<and> (2::int) \<le> 300"
proof -
  have "decodeDirect ''$?,#,'' = [2]" "decodeNumber ''$?'' = 301"
    by code_simp+
  then show ?thesis
    using decoded_values_in_range [of "''$?,#,''"] by simp
qed

end
